theory Spec2Isabelle
  imports Main "HOL-Library.Char_ord" "HOL-Library.List_Lexorder"
begin

section \<open>Document classification against a catalog of topics\<close>

text \<open>
  The repository holds two programs. \<^verbatim>\<open>documentCategorization/main.cpp\<close> is the
  single-process variant: it reads the catalog, counts keyword occurrences per topic for
  every document of a directory and picks a dominant topic per document.
  \<^verbatim>\<open>paralelCategorization/main.cpp\<close> is the MPI variant: rank 0 reads the catalog,
  serialises it, broadcasts it and sends every other rank a slice of the document list;
  the other ranks rebuild the catalog, classify their documents and append one line per
  document to a shared file.

  Strings are \<^typ>\<open>string\<close> (lists of bytes). Positions and sizes are \<^typ>\<open>nat\<close>.
  The occurrence counters of the matchers are 32-bit \<^verbatim>\<open>int\<close>s and wrap around
  (\<open>int32\<close> below).
\<close>

subsection \<open>Strings\<close>

text \<open>
  \<^verbatim>\<open>std::string::find(str, pos)\<close>: the lowest position \<open>xpos \<ge> pos\<close> at which
  \<open>str\<close> occurs in the string, or \<^verbatim>\<open>npos\<close> (here \<open>None\<close>). The empty string
  occurs at every position up to the size of the string; beyond the size nothing is found.
  \<open>find_in\<close> searches the rest of the string that starts at position \<open>xpos\<close>.
\<close>

fun find_in :: "string \<Rightarrow> string \<Rightarrow> nat \<Rightarrow> nat option" where
  "find_in str [] xpos = (if str = [] then Some xpos else None)"
| "find_in str (c # cs) xpos =
     (if take (length str) (c # cs) = str then Some xpos else find_in str cs (Suc xpos))"

definition str_find :: "string \<Rightarrow> string \<Rightarrow> nat \<Rightarrow> nat option" where
  "str_find s str pos = (if pos \<le> length s then find_in str (drop pos s) pos else None)"

subsection \<open>Machine integers\<close>

text \<open>
  The value that a 32-bit \<^verbatim>\<open>int\<close> holds for the mathematical integer \<open>x\<close>: \<open>x\<close>
  itself from \<open>-2^31\<close> to \<open>2^31 - 1\<close>, and \<open>x\<close> taken modulo \<open>2^32\<close> into that range
  otherwise. This is what \<^verbatim>\<open>static_cast<int>\<close> of a \<^verbatim>\<open>size_t\<close> yields. For
  \<^verbatim>\<open>count++\<close> at \<open>2^31 - 1\<close> the C++ standard leaves the behaviour undefined; the
  compiled programs wrap, and so does the model.
\<close>

definition int32 :: "int \<Rightarrow> int" where
  "int32 x = (x + 2147483648) mod 4294967296 - 2147483648"

subsection \<open>Failures\<close>

text \<open>
  How a process stops before its end. Both variants throw \<^verbatim>\<open>std::invalid_argument\<close>
  when a file cannot be opened; nothing catches it, so the process ends there.
  \<open>Undefined_read\<close> is a read of \<^verbatim>\<open>vector[i]\<close> past the end of the vector: C++
  checks nothing there and leaves the behaviour undefined; the model stops.
  \<open>Aborted\<close> is \<^verbatim>\<open>MPI_Abort\<close>.
\<close>

datatype error = Invalid_argument string | Undefined_read | Aborted

subsection \<open>The catalog\<close>

text \<open>
  \<^verbatim>\<open>std::map<std::string, std::vector<std::string>> catalog\<close>: the entries in the
  order in which the map iterates over them.
\<close>

type_synonym catalog = "(string \<times> string list) list"

text \<open>
  The map keeps its entries in ascending order of the keys (\<^verbatim>\<open>std::less<std::string>\<close>,
  the lexicographic order of the bytes). \<^verbatim>\<open>catalog.emplace(k, v)\<close> inserts the entry
  unless the key is present; \<^verbatim>\<open>catalog[k] = v\<close> inserts it or replaces the value.
\<close>

fun map_emplace :: "string \<Rightarrow> string list \<Rightarrow> catalog \<Rightarrow> catalog" where
  "map_emplace k v [] = [(k, v)]"
| "map_emplace k v ((k', v') # m) =
     (if k < k' then (k, v) # (k', v') # m
      else if k = k' then (k', v') # m
      else (k', v') # map_emplace k v m)"

fun map_assign :: "string \<Rightarrow> string list \<Rightarrow> catalog \<Rightarrow> catalog" where
  "map_assign k v [] = [(k, v)]"
| "map_assign k v ((k', v') # m) =
     (if k < k' then (k, v) # (k', v') # m
      else if k = k' then (k, v) # m
      else (k', v') # map_assign k v m)"

subsection \<open>Reading the catalog\<close>

text \<open>
  \<^verbatim>\<open>tokenize(s, del)\<close>, the same function in both variants:
  \<^verbatim>\<open>
  size_t start = 0;
  size_t end = s.find(del);
  while (end != std::string::npos) {
      tokens.push_back(s.substr(start, end - start));
      start = end + del.size();
      end = s.find(del, start);
  }
  tokens.push_back(s.substr(start));
  \<close>
  The loop does not end for an empty delimiter; the programs call it with \<open>@%\<close> and
  with \<open>,\<close> only.
\<close>

partial_function (option) tokenize_loop ::
  "string \<Rightarrow> string \<Rightarrow> nat \<Rightarrow> nat option \<Rightarrow> string list \<Rightarrow> string list option" where
  "tokenize_loop s del start end_pos tokens =
     (case end_pos of
        None \<Rightarrow> Some (tokens @ [drop start s])
      | Some e \<Rightarrow> tokenize_loop s del (e + length del) (str_find s del (e + length del))
                   (tokens @ [take (e - start) (drop start s)]))"

declare tokenize_loop.simps [code]

definition tokenize :: "string \<Rightarrow> string \<Rightarrow> string list option" where
  "tokenize s del = tokenize_loop s del 0 (str_find s del 0) []"

text \<open>
  The loop of \<^verbatim>\<open>readCatalog\<close> over the lines of the catalog file:
  \<^verbatim>\<open>
  std::vector<std::string> vector = tokenize(line, "@%");
  catalog.emplace(vector[0], tokenize(vector[1], ","));
  \<close>
  \<^verbatim>\<open>tokenize\<close> returns at least one token. For a line without \<open>@%\<close> it returns
  exactly one, and \<^verbatim>\<open>vector[1]\<close> reads past the end of the vector.
\<close>

fun readCatalog_lines :: "string list \<Rightarrow> catalog \<Rightarrow> (error + catalog) option" where
  "readCatalog_lines [] catalog = Some (Inr catalog)"
| "readCatalog_lines (line # lines) catalog =
     (case tokenize line ''@%'' of
        None \<Rightarrow> None
      | Some vector \<Rightarrow>
          if length vector < 2 then Some (Inl Undefined_read)
          else (case tokenize (vector ! 1) '','' of
                  None \<Rightarrow> None
                | Some identifiers \<Rightarrow>
                    readCatalog_lines lines (map_emplace (vector ! 0) identifiers catalog)))"

text \<open>
  \<^verbatim>\<open>readCatalog\<close>. The catalog file is \<open>None\<close> when it cannot be opened and the list
  of its lines otherwise. The result is what the function wrote to \<^verbatim>\<open>std::cerr\<close>, and
  the catalog or the failure. (The single-process variant reads another path and echoes
  the lines to \<^verbatim>\<open>std::cout\<close>; apart from that the two functions are the same.)
\<close>

definition readCatalog ::
  "string list option \<Rightarrow> catalog \<Rightarrow> (string list \<times> (error + catalog)) option" where
  "readCatalog inputFile catalog =
     (case inputFile of
        None \<Rightarrow> Some ([''Error opening the file!''],
                      Inl (Invalid_argument ''Catalog file does not exist''))
      | Some lines \<Rightarrow>
          (case readCatalog_lines lines catalog of
             None \<Rightarrow> None
           | Some r \<Rightarrow> Some ([], r)))"

subsection \<open>The matcher of the MPI variant\<close>

text \<open>
  The loop of \<^verbatim>\<open>classifyDocument\<close> for one identifier \<^verbatim>\<open>term\<close> (here \<open>trm\<close>):
  \<^verbatim>\<open>
  size_t pos = text.find(term, 0);
  while (pos != std::string::npos) {
      pos = text.find(term, pos + term.length());
      count++;
  }
  \<close>
  The loop need not end, so it is a partial function: \<open>None\<close> is a run that does not
  return. The counter is \<open>cnt\<close>, the 32-bit \<^verbatim>\<open>int count\<close>.
\<close>

partial_function (option) count_loop ::
  "string \<Rightarrow> string \<Rightarrow> nat option \<Rightarrow> int \<Rightarrow> int option" where
  "count_loop text trm pos cnt =
     (case pos of
        None \<Rightarrow> Some cnt
      | Some p \<Rightarrow>
          count_loop text trm (str_find text trm (p + length trm)) (int32 (cnt + 1)))"

declare count_loop.simps [code]

text \<open>The loop over the identifiers of one topic; the counter runs through all of them.\<close>

fun count_identifiers :: "string \<Rightarrow> string list \<Rightarrow> int \<Rightarrow> int option" where
  "count_identifiers text [] cnt = Some cnt"
| "count_identifiers text (trm # identifiers) cnt =
     (case count_loop text trm (str_find text trm 0) cnt of
        None \<Rightarrow> None
      | Some cnt' \<Rightarrow> count_identifiers text identifiers cnt')"

text \<open>
  The loop over the catalog: the counter starts at 0 for every topic and
  \<^verbatim>\<open>result.TopicsList.emplace_back(topic, count)\<close> appends one pair per topic.
\<close>

fun classify_topics ::
  "string \<Rightarrow> catalog \<Rightarrow> (string \<times> int) list \<Rightarrow> (string \<times> int) list option" where
  "classify_topics text [] TopicsList = Some TopicsList"
| "classify_topics text ((topic, identifiers) # catalog) TopicsList =
     (case count_identifiers text identifiers 0 of
        None \<Rightarrow> None
      | Some cnt \<Rightarrow> classify_topics text catalog (TopicsList @ [(topic, cnt)]))"

text \<open>\<^verbatim>\<open>struct SearchResult { string fileName; vector<pair<string, int>> TopicsList; };\<close>
  of the MPI variant.\<close>

record SearchResult_mpi =
  fileName :: string
  TopicsList :: "(string \<times> int) list"

text \<open>
  \<^verbatim>\<open>std::filesystem::path(filePath).filename()\<close>: what follows the last \<open>/\<close>.
\<close>

definition getFileNameFromPath :: "string \<Rightarrow> string" where
  "getFileNameFromPath filePath = rev (takeWhile (\<lambda>c. c \<noteq> CHR ''/'') (rev filePath))"

text \<open>
  \<^verbatim>\<open>classifyDocument\<close>, up to the result it hands to \<^verbatim>\<open>writeResultsToFile\<close>. The
  file is \<open>None\<close> when it cannot be opened and the list of its lines otherwise; the text
  is the concatenation of the lines, without the line ends.
\<close>

definition classifyDocument ::
  "catalog \<Rightarrow> string \<Rightarrow> string list option \<Rightarrow> (error + SearchResult_mpi) option" where
  "classifyDocument catalog filePath inputFile =
     (case inputFile of
        None \<Rightarrow> Some (Inl (Invalid_argument ''Catalog file does not exist''))
      | Some lines \<Rightarrow>
          (case classify_topics (concat lines) catalog [] of
             None \<Rightarrow> None
           | Some topics \<Rightarrow>
               Some (Inr \<lparr>fileName = getFileNameFromPath filePath, TopicsList = topics\<rparr>)))"

subsection \<open>Counting by the words of the specification\<close>

text \<open>
  The specification: scanning left to right from position 0, locate the next occurrence of
  the keyword, count it, and resume at occurrence start plus keyword length.
  \<open>scan_positions kw text start\<close> lists the positions so found from \<open>start\<close> on, looking
  at one position after the other. For the empty keyword the specification gives no count
  (the scan would stay where it is); the list is empty there.
\<close>

function scan_positions :: "string \<Rightarrow> string \<Rightarrow> nat \<Rightarrow> nat list" where
  "scan_positions kw text start =
     (if kw = [] \<or> length text < start + length kw then []
      else if take (length kw) (drop start text) = kw
           then start # scan_positions kw text (start + length kw)
           else scan_positions kw text (Suc start))"
  by pat_completeness auto
termination
proof (relation "measure (\<lambda>(kw, text, start). length text - start)")
  fix kw tx :: string and start :: nat
  assume "\<not> (kw = [] \<or> length tx < start + length kw)"
  then obtain c cs where "kw = c # cs" "start + length kw \<le> length tx"
    by (cases kw) simp_all
  then show "((kw, tx, start + length kw), kw, tx, start)
               \<in> measure (\<lambda>(kw, text, start). length text - start)"
    and "((kw, tx, Suc start), kw, tx, start)
               \<in> measure (\<lambda>(kw, text, start). length text - start)"
    by simp_all
qed simp

declare scan_positions.simps [simp del]

definition occurrence_count :: "string \<Rightarrow> string \<Rightarrow> nat" where
  "occurrence_count kw text = length (scan_positions kw text 0)"

text \<open>The count of a topic is the sum of the counts of its keywords.\<close>

definition topic_count :: "string \<Rightarrow> string list \<Rightarrow> int" where
  "topic_count text identifiers = (\<Sum>kw\<leftarrow>identifiers. int (occurrence_count kw text))"

text \<open>The keyword stands in the text at position \<open>p\<close>.\<close>

definition occurs_at :: "string \<Rightarrow> string \<Rightarrow> nat \<Rightarrow> bool" where
  "occurs_at kw text p \<longleftrightarrow>
     p + length kw \<le> length text \<and> take (length kw) (drop p text) = kw"

subsection \<open>The single-process variant: matcher and dominant topic\<close>

text \<open>\<^verbatim>\<open>struct SearchResult { std::string topicName; int count{}; };\<close>\<close>

record SearchResult =
  topicName :: string
  count :: int

text \<open>
  The loop of \<^verbatim>\<open>findAllOccurrences\<close> for one identifier. It is the loop of the MPI
  variant, and records each position, narrowed to \<^verbatim>\<open>int\<close>, in
  \<^verbatim>\<open>std::vector<int> occurrences\<close> as well.
  Where the loop does not end, the vector grows until the memory is exhausted; the model
  has no bound on memory, and \<open>None\<close> stands for that run too.
\<close>

partial_function (option) occurrences_loop ::
  "string \<Rightarrow> string \<Rightarrow> nat option \<Rightarrow> int list \<Rightarrow> int \<Rightarrow> (int list \<times> int) option" where
  "occurrences_loop text trm pos occurrences cnt =
     (case pos of
        None \<Rightarrow> Some (occurrences, cnt)
      | Some p \<Rightarrow> occurrences_loop text trm (str_find text trm (p + length trm))
                   (occurrences @ [int32 (int p)]) (int32 (cnt + 1)))"

declare occurrences_loop.simps [code]

fun find_identifiers ::
  "string \<Rightarrow> string list \<Rightarrow> int list \<Rightarrow> int \<Rightarrow> (int list \<times> int) option" where
  "find_identifiers text [] occurrences cnt = Some (occurrences, cnt)"
| "find_identifiers text (trm # identifiers) occurrences cnt =
     (case occurrences_loop text trm (str_find text trm 0) occurrences cnt of
        None \<Rightarrow> None
      | Some (occurrences', cnt') \<Rightarrow> find_identifiers text identifiers occurrences' cnt')"

text \<open>
  The loop over the catalog. The count stored for a topic is
  \<^verbatim>\<open>static_cast<int>(occurrences.size())\<close>, the size narrowed to 32 bits.
\<close>

fun findAllOccurrences_topics ::
  "string \<Rightarrow> catalog \<Rightarrow> SearchResult list \<Rightarrow> SearchResult list option" where
  "findAllOccurrences_topics text [] matches = Some matches"
| "findAllOccurrences_topics text ((topic, identifiers) # catalog) matches =
     (case find_identifiers text identifiers [] 0 of
        None \<Rightarrow> None
      | Some (occurrences, cnt) \<Rightarrow>
          findAllOccurrences_topics text catalog
            (matches @ [\<lparr>topicName = topic, count = int32 (int (length occurrences))\<rparr>]))"

definition findAllOccurrences ::
  "catalog \<Rightarrow> string \<Rightarrow> string list option
   \<Rightarrow> (error + string \<times> SearchResult list) option" where
  "findAllOccurrences catalog file_name inputFile =
     (case inputFile of
        None \<Rightarrow> Some (Inl (Invalid_argument ''Catalog file does not exist''))
      | Some lines \<Rightarrow>
          (case findAllOccurrences_topics (concat lines) catalog [] of
             None \<Rightarrow> None
           | Some matches \<Rightarrow> Some (Inr (file_name, matches))))"

text \<open>
  The inner loop of \<^verbatim>\<open>determineRelevantTopics\<close> over the topics of one document, with
  its two local variables \<^verbatim>\<open>maxCount\<close> (initially 0) and \<^verbatim>\<open>relevantTopic\<close>
  (initially empty).
\<close>

fun relevant_loop :: "SearchResult list \<Rightarrow> int \<Rightarrow> string \<Rightarrow> int \<times> string" where
  "relevant_loop [] maxCount relevantTopic = (maxCount, relevantTopic)"
| "relevant_loop (r # rs) maxCount relevantTopic =
     (if count r > maxCount then relevant_loop rs (count r) (topicName r)
      else relevant_loop rs maxCount relevantTopic)"

text \<open>
  The outer loop: \<^verbatim>\<open>relevantTopics[docName] = relevantTopic\<close> stores or overwrites
  the entry of the document. The \<^verbatim>\<open>unordered_map\<close> is a map.
\<close>

fun determineRelevantTopics_loop ::
  "(string \<times> SearchResult list) list \<Rightarrow> (string \<rightharpoonup> string) \<Rightarrow> (string \<rightharpoonup> string)" where
  "determineRelevantTopics_loop [] relevantTopics = relevantTopics"
| "determineRelevantTopics_loop ((docName, topics) # matches) relevantTopics =
     determineRelevantTopics_loop matches
       (relevantTopics(docName \<mapsto> snd (relevant_loop topics 0 '''')))"

definition determineRelevantTopics ::
  "(string \<times> SearchResult list) list \<Rightarrow> (string \<rightharpoonup> string)" where
  "determineRelevantTopics matches = determineRelevantTopics_loop matches Map.empty"

subsection \<open>Replication of the catalog (MPI variant)\<close>

text \<open>
  Rank 0 writes the catalog into a \<^verbatim>\<open>std::stringstream\<close>: for every entry the key and
  \<open>:\<close>, then every item followed by \<open>,\<close>, then \<open>;\<close>.
\<close>

fun write_items :: "string list \<Rightarrow> string \<Rightarrow> string" where
  "write_items [] ss = ss"
| "write_items (item # items) ss = write_items items (ss @ item @ '','')"

fun write_catalog :: "catalog \<Rightarrow> string \<Rightarrow> string" where
  "write_catalog [] ss = ss"
| "write_catalog ((first, second) # catalog) ss =
     write_catalog catalog (write_items second (ss @ first @ '':'') @ '';'')"

definition serialized_catalog :: "catalog \<Rightarrow> string" where
  "serialized_catalog catalog = write_catalog catalog []"

text \<open>
  The other ranks receive \<^verbatim>\<open>catalogSize\<close> characters into
  \<^verbatim>\<open>new char[catalogSize]\<close> and insert the array into a stream with
  \<^verbatim>\<open>ss << received_catalog\<close>. That reads a C string: the characters up to the first
  NUL. Rank 0 sends no terminator, so the read runs on into whatever bytes follow the
  array in the memory of the worker (\<open>beyond\<close>, which the program does not determine).
\<close>

definition c_string :: "string \<Rightarrow> string" where
  "c_string memory = takeWhile (\<lambda>c. c \<noteq> CHR 0x00) memory"

text \<open>
  \<^verbatim>\<open>std::getline(stream, str, delim)\<close> on the rest of a stream: it fails at the end
  of the stream; otherwise it extracts the characters before the first delimiter and
  discards the delimiter.
\<close>

fun getline :: "string \<Rightarrow> char \<Rightarrow> (string \<times> string) option" where
  "getline [] delim = None"
| "getline (c # cs) delim =
     Some (takeWhile (\<lambda>x. x \<noteq> delim) (c # cs), drop 1 (dropWhile (\<lambda>x. x \<noteq> delim) (c # cs)))"

lemma getline_shorter: "getline s delim = Some (x, rest) \<Longrightarrow> length rest < length s"
proof (cases s)
  case Nil
  then show "getline s delim = Some (x, rest) \<Longrightarrow> length rest < length s" by simp
next
  case (Cons c cs)
  assume "getline s delim = Some (x, rest)"
  with Cons have r: "rest = drop 1 (dropWhile (\<lambda>x. x \<noteq> delim) (c # cs))" by auto
  have "length (dropWhile (\<lambda>x. x \<noteq> delim) (c # cs)) \<le> length (c # cs)"
    by (rule length_dropWhile_le)
  then show "length rest < length s"
    unfolding r Cons by (cases "dropWhile (\<lambda>x. x \<noteq> delim) (c # cs)") auto
qed

text \<open>The loop \<^verbatim>\<open>while (std::getline(iss, item, ','))\<close> over the items of one entry.\<close>

function read_items :: "string \<Rightarrow> string list \<Rightarrow> string list" where
  "read_items iss items =
     (case getline iss CHR '','' of
        None \<Rightarrow> items
      | Some (item, rest) \<Rightarrow> read_items rest (items @ [item]))"
  by pat_completeness auto
termination
  by (relation "measure (\<lambda>(iss, items). length iss)") (auto dest: getline_shorter)

text \<open>
  The loop \<^verbatim>\<open>while (std::getline(ss, entry, ';'))\<close>. The category is what
  \<^verbatim>\<open>std::getline(iss, category, ':')\<close> extracts from the entry (nothing, when the entry
  is empty), and \<^verbatim>\<open>catalog[category] = items\<close> stores the entry.
\<close>

function decode_entries :: "string \<Rightarrow> catalog \<Rightarrow> catalog" where
  "decode_entries ss catalog =
     (case getline ss CHR '';'' of
        None \<Rightarrow> catalog
      | Some (entry, rest) \<Rightarrow>
          decode_entries rest
            (case getline entry CHR '':'' of
               None \<Rightarrow> map_assign [] [] catalog
             | Some (category, iss) \<Rightarrow> map_assign category (read_items iss []) catalog))"
  by pat_completeness auto
termination
  by (relation "measure (\<lambda>(ss, catalog). length ss)") (auto dest: getline_shorter)

declare read_items.simps [simp del] decode_entries.simps [simp del]

text \<open>The catalog of a worker, whose map is empty before.\<close>

definition worker_catalog :: "string \<Rightarrow> string \<Rightarrow> catalog" where
  "worker_catalog received_catalog beyond = decode_entries (c_string (received_catalog @ beyond)) []"

text \<open>The serialised form of one entry, and the entries whose round trip is at stake.\<close>

definition encode_entry :: "string \<times> string list \<Rightarrow> string" where
  "encode_entry e = fst e @ '':'' @ concat (map (\<lambda>item. item @ '','') (snd e)) @ '';''"

text \<open>
  The separators that the decoder acts on: \<open>:\<close> and \<open>;\<close> in a topic name,
  \<open>,\<close> and \<open>;\<close> in a keyword.
\<close>

definition separator_free :: "string \<times> string list \<Rightarrow> bool" where
  "separator_free e \<longleftrightarrow>
     CHR '':'' \<notin> set (fst e) \<and> CHR '';'' \<notin> set (fst e) \<and>
     (\<forall>item\<in>set (snd e). CHR '','' \<notin> set item \<and> CHR '';'' \<notin> set item)"

subsection \<open>Dispatch of the documents (MPI variant, rank 0)\<close>

text \<open>
  What \<^verbatim>\<open>MPI_Send\<close> transmits: one \<^verbatim>\<open>int\<close>, or a run of \<^verbatim>\<open>char\<close>. A send is
  the destination rank with the payload.
\<close>

datatype payload = Int_msg int | Chars_msg string

type_synonym send = "nat \<times> payload"

text \<open>
  The inner loop \<^verbatim>\<open>for (j = 0; j < numDocsToSend; ++j)\<close>: for each document its size
  plus one, then its characters with the terminating NUL, and \<^verbatim>\<open>++startIdx\<close>. The
  loop returns the sends and the new \<^verbatim>\<open>startIdx\<close>. \<^verbatim>\<open>documents[startIdx]\<close> past
  the end of the vector is undefined in C++; the model returns \<open>None\<close> there.
\<close>

fun send_documents :: "string list \<Rightarrow> nat \<Rightarrow> nat \<Rightarrow> nat \<Rightarrow> (send list \<times> nat) option" where
  "send_documents documents i 0 startIdx = Some ([], startIdx)"
| "send_documents documents i (Suc n) startIdx =
     (if startIdx < length documents then
        (case send_documents documents i n (Suc startIdx) of
           None \<Rightarrow> None
         | Some (sends, startIdx') \<Rightarrow>
             Some ((i, Int_msg (int (length (documents ! startIdx)) + 1))
                   # (i, Chars_msg (documents ! startIdx @ [CHR 0x00]))
                   # sends, startIdx'))
      else None)"

text \<open>
  The outer loop \<^verbatim>\<open>for (int i = 1; i < size; ++i)\<close>. \<open>world_size\<close> is the
  source's \<^verbatim>\<open>size\<close>, the number of MPI processes.
\<close>

function dispatch_loop ::
  "string list \<Rightarrow> nat \<Rightarrow> nat \<Rightarrow> nat \<Rightarrow> nat \<Rightarrow> nat \<Rightarrow> send list option" where
  "dispatch_loop documents world_size numDocumentsPerWorker remainingDocuments i startIdx =
     (if i < world_size then
        (let numDocsToSend = numDocumentsPerWorker + (if i \<le> remainingDocuments then 1 else 0)
         in case send_documents documents i numDocsToSend startIdx of
              None \<Rightarrow> None
            | Some (sends, startIdx') \<Rightarrow>
                (case dispatch_loop documents world_size numDocumentsPerWorker remainingDocuments
                        (i + 1) startIdx' of
                   None \<Rightarrow> None
                 | Some rest \<Rightarrow> Some ((i, Int_msg (int numDocsToSend)) # sends @ rest)))
      else Some [])"
  by pat_completeness auto
termination
  by (relation "measure (\<lambda>(documents, world_size, b, r, i, s). world_size - i)") auto

text \<open>
  The second \<^verbatim>\<open>if (rank == 0)\<close> block of \<^verbatim>\<open>main\<close>, given the document list that
  \<^verbatim>\<open>getAllFilesInDirectory\<close> returned. \<^verbatim>\<open>main\<close> aborts when \<^verbatim>\<open>size < 2\<close>, so the
  divisor \<^verbatim>\<open>size - 1\<close> is at least 1 here.
\<close>

definition dispatch :: "string list \<Rightarrow> nat \<Rightarrow> send list option" where
  "dispatch documents world_size =
     dispatch_loop documents world_size (length documents div (world_size - 1))
       (length documents mod (world_size - 1)) 1 0"

text \<open>The messages that rank 0 sends to rank \<open>i\<close>, in the order of sending.\<close>

definition messages_to :: "nat \<Rightarrow> send list \<Rightarrow> payload list" where
  "messages_to i sends = map snd (filter (\<lambda>(j, m). j = i) sends)"


subsection \<open>The processes of the MPI variant\<close>

text \<open>
  The MPI calls of a process, in the order in which it makes them, each with the data it
  sends or receives, and the results a worker hands to \<^verbatim>\<open>writeResultsToFile\<close>.
\<close>

datatype mpi_call = MPI_Bcast payload | MPI_Barrier | MPI_Send nat payload | MPI_Recv payload

datatype event = Call mpi_call | Classified SearchResult_mpi

text \<open>
  A run of one process: what it wrote to \<^verbatim>\<open>std::cerr\<close>, how it stopped (\<open>None\<close>: it
  reached the end of \<^verbatim>\<open>main\<close>), and its events in order.
\<close>

record run =
  cerr :: "string list"
  stopped :: "error option"
  events :: "event list"

text \<open>
  \<^verbatim>\<open>main\<close> on rank 0: \<^verbatim>\<open>readCatalog\<close>, the serialisation and the two broadcasts
  (size, then characters), the barrier, then the dispatch. \<open>documents\<close> is what
  \<^verbatim>\<open>getAllFilesInDirectory\<close> returns.
\<close>

definition manager :: "string list option \<Rightarrow> string list \<Rightarrow> nat \<Rightarrow> run option" where
  "manager catalogFile documents world_size =
     (if world_size < 2 then
        Some \<lparr>cerr = [''At least 2 processes are required: 1 manager and 1 worker.''],
              stopped = Some Aborted, events = []\<rparr>
      else
        (case readCatalog catalogFile [] of
           None \<Rightarrow> None
         | Some (diagnostics, Inl e) \<Rightarrow>
             Some \<lparr>cerr = diagnostics, stopped = Some e, events = []\<rparr>
         | Some (diagnostics, Inr catalog) \<Rightarrow>
             (let broadcast =
                [Call (MPI_Bcast (Int_msg (int (length (serialized_catalog catalog))))),
                 Call (MPI_Bcast (Chars_msg (serialized_catalog catalog))),
                 Call MPI_Barrier]
              in case dispatch documents world_size of
                   None \<Rightarrow>
                     Some \<lparr>cerr = diagnostics, stopped = Some Undefined_read,
                           events = broadcast\<rparr>
                 | Some sends \<Rightarrow>
                     Some \<lparr>cerr = diagnostics, stopped = None,
                           events = broadcast @ map (\<lambda>(i, m). Call (MPI_Send i m)) sends\<rparr>)))"

text \<open>
  The receive loop of a worker, \<^verbatim>\<open>for (int i = 0; i < numDocsToReceive; ++i)\<close>, on the
  messages that rank 0 sent to it (\<open>inbox\<close>): the size, the characters, then
  \<^verbatim>\<open>classifyDocument(document)\<close>, which takes the characters up to the first NUL as the
  path. \<open>files\<close> maps a path to the lines of the file. A receive without a message
  waits for ever.
\<close>

fun receive_documents ::
  "catalog \<Rightarrow> (string \<Rightarrow> string list option) \<Rightarrow> nat \<Rightarrow> payload list \<Rightarrow> run option" where
  "receive_documents catalog files 0 inbox = Some \<lparr>cerr = [], stopped = None, events = []\<rparr>"
| "receive_documents catalog files (Suc n) (Int_msg docSize # Chars_msg document # inbox) =
     (let received = [Call (MPI_Recv (Int_msg docSize)), Call (MPI_Recv (Chars_msg document))]
      in case classifyDocument catalog (c_string document) (files (c_string document)) of
           None \<Rightarrow> None
         | Some (Inl e) \<Rightarrow>
             Some \<lparr>cerr = [''Error opening the file!''], stopped = Some e, events = received\<rparr>
         | Some (Inr result) \<Rightarrow>
             (case receive_documents catalog files n inbox of
                None \<Rightarrow> None
              | Some r \<Rightarrow> Some (r\<lparr>events := received @ Classified result # events r\<rparr>)))"
| "receive_documents catalog files (Suc n) inbox = None"

text \<open>
  The documents that the receive loop of a worker takes from its inbox, given the number
  it was announced: the loop of \<open>receive_documents\<close> without the classification. The
  worker reads that number first; it alone decides how many documents the worker takes.
\<close>

fun take_documents :: "nat \<Rightarrow> payload list \<Rightarrow> string list option" where
  "take_documents 0 inbox = Some []"
| "take_documents (Suc n) (Int_msg docSize # Chars_msg document # inbox) =
     (case take_documents n inbox of
        None \<Rightarrow> None
      | Some documents \<Rightarrow> Some (c_string document # documents))"
| "take_documents (Suc n) inbox = None"


text \<open>
  \<^verbatim>\<open>main\<close> on every other rank. The process skips the first \<^verbatim>\<open>if (rank == 0)\<close>
  block, calls \<^verbatim>\<open>MPI_Barrier\<close>, and only then, in the \<^verbatim>\<open>else\<close> branch, makes its two
  \<^verbatim>\<open>MPI_Bcast\<close> calls, decodes the catalog and receives its documents.
\<close>

definition worker ::
  "nat \<Rightarrow> string \<Rightarrow> string \<Rightarrow> payload list \<Rightarrow> (string \<Rightarrow> string list option) \<Rightarrow> run option"
  where
  "worker world_size received_catalog beyond inbox files =
     (if world_size < 2 then
        Some \<lparr>cerr = [''At least 2 processes are required: 1 manager and 1 worker.''],
              stopped = Some Aborted, events = []\<rparr>
      else
        (let first =
           [Call MPI_Barrier,
            Call (MPI_Bcast (Int_msg (int (length received_catalog)))),
            Call (MPI_Bcast (Chars_msg received_catalog))];
             catalog = worker_catalog received_catalog beyond
         in case inbox of
              Int_msg numDocsToReceive # inbox' \<Rightarrow>
                (case receive_documents catalog files (nat numDocsToReceive) inbox' of
                   None \<Rightarrow> None
                 | Some r \<Rightarrow>
                     Some (r\<lparr>events :=
                       first @ Call (MPI_Recv (Int_msg numDocsToReceive)) # events r\<rparr>))
            | _ \<Rightarrow> None))"

text \<open>The messages that a run sent to rank \<open>i\<close>, in order.\<close>

fun inbox_of :: "nat \<Rightarrow> event list \<Rightarrow> payload list" where
  "inbox_of i [] = []"
| "inbox_of i (Call (MPI_Send j m) # evs) =
     (if j = i then m # inbox_of i evs else inbox_of i evs)"
| "inbox_of i (ev # evs) = inbox_of i evs"


section \<open>Properties\<close>

subsection \<open>Matching\<close>

lemma int32_id: "- 2147483648 \<le> x \<Longrightarrow> x < 2147483648 \<Longrightarrow> int32 x = x"
  by (simp add: int32_def)

lemma int32_idem: "int32 (int32 x) = int32 x"
  by (simp add: int32_def)

lemma int32_add_left: "int32 (int32 a + b) = int32 (a + b)"
proof -
  have "int32 a + b + 2147483648 = (a + 2147483648) mod 4294967296 + b"
    by (simp add: int32_def)
  then have "(int32 a + b + 2147483648) mod 4294967296
        = ((a + 2147483648) mod 4294967296 + b) mod 4294967296"
    by (rule arg_cong [where f = "\<lambda>x. x mod 4294967296"])
  also have "\<dots> = (a + 2147483648 + b) mod 4294967296"
    by (rule mod_add_left_eq)
  also have "a + 2147483648 + b = a + b + 2147483648" by simp
  finally have e: "(int32 a + b + 2147483648) mod 4294967296
        = (a + b + 2147483648) mod 4294967296" .
  show ?thesis
    by (simp only: int32_def [of "int32 a + b"] int32_def [of "a + b"] e)
qed

lemma count_loop_None [simp]: "count_loop text trm None cnt = Some cnt"
  by (simp add: count_loop.simps)

lemma count_loop_Some:
  "count_loop text trm (Some p) cnt
   = count_loop text trm (str_find text trm (p + length trm)) (int32 (cnt + 1))"
  by (subst count_loop.simps) simp

lemma find_in_short: "length s < length str \<Longrightarrow> find_in str s xpos = None"
  by (induction s arbitrary: xpos) auto

lemma str_find_short:
  "length text < start + length kw \<Longrightarrow> kw \<noteq> [] \<Longrightarrow> str_find text kw start = None"
  by (auto simp: str_find_def intro: find_in_short)

lemma str_find_step:
  assumes "start < length text"
  shows "str_find text kw start =
     (if take (length kw) (drop start text) = kw then Some start
      else str_find text kw (Suc start))"
proof -
  have "drop start text = text ! start # drop (Suc start) text"
    using assms by (simp add: Cons_nth_drop_Suc)
  then show ?thesis using assms by (simp add: str_find_def)
qed

text \<open>
  The loop of the MPI variant against the scan of the specification: the counter ends at
  its start value plus the number of positions of the scan, as a 32-bit value.
\<close>

lemma count_loop_scan:
  "kw \<noteq> [] \<Longrightarrow> int32 cnt = cnt \<Longrightarrow>
   count_loop tx kw (str_find tx kw start) cnt
   = Some (int32 (cnt + int (length (scan_positions kw tx start))))"
proof (induction kw tx start arbitrary: cnt rule: scan_positions.induct)
  case (1 kw tx start)
  note kw = \<open>kw \<noteq> []\<close> and rep = \<open>int32 cnt = cnt\<close>
  show ?case
  proof (cases "length tx < start + length kw")
    case True
    then show ?thesis
      using kw rep by (simp add: str_find_short scan_positions.simps [of kw tx start])
  next
    case False
    with kw have lt: "start < length tx" by (cases kw) auto
    show ?thesis
    proof (cases "take (length kw) (drop start tx) = kw")
      case True
      have "count_loop tx kw (str_find tx kw start) cnt
            = count_loop tx kw (str_find tx kw (start + length kw)) (int32 (cnt + 1))"
        using True by (simp add: str_find_step [OF lt] count_loop_Some)
      also have "\<dots> = Some (int32 (int32 (cnt + 1)
                    + int (length (scan_positions kw tx (start + length kw)))))"
        using "1.IH"(1) [of "int32 (cnt + 1)"] kw False True by (simp add: int32_idem)
      also have "\<dots> = Some (int32 (cnt + 1
                    + int (length (scan_positions kw tx (start + length kw)))))"
        by (simp only: int32_add_left)
      finally show ?thesis
        using kw False True
        by (simp add: scan_positions.simps [of kw tx start] add.assoc)
    next
      case no: False
      have "count_loop tx kw (str_find tx kw start) cnt
            = count_loop tx kw (str_find tx kw (Suc start)) cnt"
        using no by (simp add: str_find_step [OF lt])
      also have "\<dots> = Some (int32 (cnt + int (length (scan_positions kw tx (Suc start)))))"
        using "1.IH"(2) [of cnt] kw rep False no by simp
      finally show ?thesis
        using kw False no by (simp add: scan_positions.simps [of kw tx start])
    qed
  qed
qed

text \<open>
  For the empty identifier the loop does not return: from a position inside the text the
  search for the empty string finds that very position again.
\<close>

lemma count_loop_empty_diverges_aux:
  assumes "count_loop text trm pos cnt = Some y"
  shows "\<not> (trm = [] \<and> (\<exists>p. pos = Some p \<and> p \<le> length text))"
proof (rule count_loop.raw_induct
    [where P = "\<lambda>tx trm pos cnt y. \<not> (trm = [] \<and> (\<exists>p. pos = Some p \<and> p \<le> length tx))",
     OF _ assms])
  fix f :: "string \<Rightarrow> string \<Rightarrow> nat option \<Rightarrow> int \<Rightarrow> int option"
  fix tx trm pos cnt y
  assume IH: "\<And>tx trm pos cnt y. f tx trm pos cnt = Some y \<Longrightarrow>
     \<not> (trm = [] \<and> (\<exists>p. pos = Some p \<and> p \<le> length tx))"
  assume step: "(case pos of None \<Rightarrow> Some cnt
      | Some p \<Rightarrow> f tx trm (str_find tx trm (p + length trm)) (int32 (cnt + 1))) = Some y"
  show "\<not> (trm = [] \<and> (\<exists>p. pos = Some p \<and> p \<le> length tx))"
  proof
    assume a: "trm = [] \<and> (\<exists>p. pos = Some p \<and> p \<le> length tx)"
    then obtain p where p: "pos = Some p" "p \<le> length tx" by blast
    have "str_find tx [] p = Some p"
      using p(2) by (cases "drop p tx") (simp_all add: str_find_def)
    with step a p have "f tx [] (Some p) (int32 (cnt + 1)) = Some y" by simp
    from IH [OF this] p show False by simp
  qed
qed

lemma count_loop_empty_diverges:
  "p \<le> length text \<Longrightarrow> count_loop text [] (Some p) cnt = None"
  using count_loop_empty_diverges_aux [of "text" "[]" "Some p" cnt]
  by (cases "count_loop text [] (Some p) cnt") auto

lemma occurrences_loop_None [simp]:
  "occurrences_loop text trm None occurrences cnt = Some (occurrences, cnt)"
  by (simp add: occurrences_loop.simps)

lemma occurrences_loop_Some:
  "occurrences_loop text trm (Some p) occurrences cnt
   = occurrences_loop text trm (str_find text trm (p + length trm))
       (occurrences @ [int32 (int p)]) (int32 (cnt + 1))"
  by (subst occurrences_loop.simps) simp

lemma occurrences_loop_scan:
  "kw \<noteq> [] \<Longrightarrow> int32 cnt = cnt \<Longrightarrow>
   occurrences_loop tx kw (str_find tx kw start) occurrences cnt
   = Some (occurrences @ map (\<lambda>p. int32 (int p)) (scan_positions kw tx start),
           int32 (cnt + int (length (scan_positions kw tx start))))"
proof (induction kw tx start arbitrary: occurrences cnt rule: scan_positions.induct)
  case (1 kw tx start)
  note kw = \<open>kw \<noteq> []\<close> and rep = \<open>int32 cnt = cnt\<close>
  show ?case
  proof (cases "length tx < start + length kw")
    case True
    then show ?thesis
      using kw rep by (simp add: str_find_short scan_positions.simps [of kw tx start])
  next
    case False
    with kw have lt: "start < length tx" by (cases kw) auto
    show ?thesis
    proof (cases "take (length kw) (drop start tx) = kw")
      case True
      have "occurrences_loop tx kw (str_find tx kw start) occurrences cnt
            = occurrences_loop tx kw (str_find tx kw (start + length kw))
                (occurrences @ [int32 (int start)]) (int32 (cnt + 1))"
        using True by (simp add: str_find_step [OF lt] occurrences_loop_Some)
      also have "\<dots> = Some ((occurrences @ [int32 (int start)])
                            @ map (\<lambda>p. int32 (int p)) (scan_positions kw tx (start + length kw)),
                          int32 (int32 (cnt + 1)
                            + int (length (scan_positions kw tx (start + length kw)))))"
        using "1.IH"(1) [of "int32 (cnt + 1)" "occurrences @ [int32 (int start)]"] kw False True
        by (simp add: int32_idem)
      also have "\<dots> = Some ((occurrences @ [int32 (int start)])
                            @ map (\<lambda>p. int32 (int p)) (scan_positions kw tx (start + length kw)),
                          int32 (cnt + 1
                            + int (length (scan_positions kw tx (start + length kw)))))"
        by (simp only: int32_add_left)
      finally show ?thesis
        using kw False True
        by (simp add: scan_positions.simps [of kw tx start] add.assoc)
    next
      case no: False
      have "occurrences_loop tx kw (str_find tx kw start) occurrences cnt
            = occurrences_loop tx kw (str_find tx kw (Suc start)) occurrences cnt"
        using no by (simp add: str_find_step [OF lt])
      also have "\<dots> = Some (occurrences
                            @ map (\<lambda>p. int32 (int p)) (scan_positions kw tx (Suc start)),
                          int32 (cnt + int (length (scan_positions kw tx (Suc start)))))"
        using "1.IH"(2) [of cnt occurrences] kw rep False no by simp
      finally show ?thesis
        using kw False no by (simp add: scan_positions.simps [of kw tx start])
    qed
  qed
qed

lemma topic_count_Cons:
  "topic_count tx (kw # identifiers)
   = int (length (scan_positions kw tx 0)) + topic_count tx identifiers"
  by (simp add: topic_count_def occurrence_count_def)

lemma count_identifiers_total:
  "[] \<notin> set identifiers \<Longrightarrow> int32 cnt = cnt \<Longrightarrow>
   count_identifiers tx identifiers cnt = Some (int32 (cnt + topic_count tx identifiers))"
proof (induction identifiers arbitrary: cnt)
  case Nil
  then show ?case by (simp add: topic_count_def)
next
  case (Cons kw identifiers)
  then have kw: "kw \<noteq> []" and rest: "[] \<notin> set identifiers" by auto
  let ?n = "int (length (scan_positions kw tx 0))"
  have "count_identifiers tx (kw # identifiers) cnt
        = count_identifiers tx identifiers (int32 (cnt + ?n))"
    using count_loop_scan [OF kw Cons.prems(2), of tx 0] by simp
  also have "\<dots> = Some (int32 (int32 (cnt + ?n) + topic_count tx identifiers))"
    by (rule Cons.IH [OF rest int32_idem])
  also have "\<dots> = Some (int32 (cnt + ?n + topic_count tx identifiers))"
    by (simp only: int32_add_left)
  finally show ?case by (simp only: topic_count_Cons add.assoc)
qed

lemma find_identifiers_total:
  "[] \<notin> set identifiers \<Longrightarrow> int32 cnt = cnt \<Longrightarrow>
   \<exists>occurrences'. find_identifiers tx identifiers occurrences cnt
       = Some (occurrences', int32 (cnt + topic_count tx identifiers)) \<and>
     int (length occurrences') = int (length occurrences) + topic_count tx identifiers"
proof (induction identifiers arbitrary: occurrences cnt)
  case Nil
  then show ?case by (simp add: topic_count_def)
next
  case (Cons kw identifiers)
  then have kw: "kw \<noteq> []" and rest: "[] \<notin> set identifiers" by auto
  let ?n = "int (length (scan_positions kw tx 0))"
  let ?occ = "occurrences @ map (\<lambda>p. int32 (int p)) (scan_positions kw tx 0)"
  have step: "find_identifiers tx (kw # identifiers) occurrences cnt
        = find_identifiers tx identifiers ?occ (int32 (cnt + ?n))"
    using occurrences_loop_scan [OF kw Cons.prems(2), of tx 0 occurrences] by simp
  from Cons.IH [OF rest int32_idem, of ?occ "cnt + ?n"] obtain occurrences' where
    r: "find_identifiers tx identifiers ?occ (int32 (cnt + ?n))
        = Some (occurrences', int32 (int32 (cnt + ?n) + topic_count tx identifiers))"
    and l: "int (length occurrences') = int (length ?occ) + topic_count tx identifiers"
    by blast
  have "find_identifiers tx (kw # identifiers) occurrences cnt
        = Some (occurrences', int32 (cnt + topic_count tx (kw # identifiers)))"
    unfolding step r by (simp only: int32_add_left topic_count_Cons add.assoc)
  moreover have "int (length occurrences')
        = int (length occurrences) + topic_count tx (kw # identifiers)"
    using l by (simp add: topic_count_Cons)
  ultimately show ?case by blast
qed

lemma int32_zero: "int32 0 = 0"
  by (simp add: int32_def)

lemma classify_topics_total:
  "\<forall>(topic, identifiers)\<in>set catalog. [] \<notin> set identifiers \<Longrightarrow>
   classify_topics tx catalog acc
   = Some (acc @ map (\<lambda>(topic, identifiers). (topic, int32 (topic_count tx identifiers)))
                   catalog)"
proof (induction catalog arbitrary: acc)
  case Nil
  then show ?case by simp
next
  case (Cons entry catalog)
  obtain topic identifiers where e: "entry = (topic, identifiers)" by (cases entry)
  with Cons.prems have ids: "[] \<notin> set identifiers"
    and rest: "\<forall>(topic, identifiers)\<in>set catalog. [] \<notin> set identifiers"
    by auto
  show ?case
    using Cons.IH [OF rest] count_identifiers_total [OF ids int32_zero, of tx]
    by (simp add: e)
qed

lemma findAllOccurrences_topics_total:
  "\<forall>(topic, identifiers)\<in>set catalog. [] \<notin> set identifiers \<Longrightarrow>
   findAllOccurrences_topics tx catalog matches
   = Some (matches @ map (\<lambda>(topic, identifiers).
        \<lparr>topicName = topic, count = int32 (topic_count tx identifiers)\<rparr>) catalog)"
proof (induction catalog arbitrary: matches)
  case Nil
  then show ?case by simp
next
  case (Cons entry catalog)
  obtain topic identifiers where e: "entry = (topic, identifiers)" by (cases entry)
  with Cons.prems have ids: "[] \<notin> set identifiers"
    and rest: "\<forall>(topic, identifiers)\<in>set catalog. [] \<notin> set identifiers"
    by auto
  from find_identifiers_total [OF ids int32_zero, of tx "[]"] obtain occurrences where
    "find_identifiers tx identifiers [] 0
       = Some (occurrences, int32 (0 + topic_count tx identifiers))"
    "int (length occurrences) = int (length ([]::int list)) + topic_count tx identifiers"
    by blast
  then show ?case
    using Cons.IH [OF rest] by (simp add: e)
qed

text \<open>
  The positions of the scan are occurrences of the keyword, lie at least a keyword length
  apart, and skip no occurrence: every occurrence of the keyword in the text starts
  inside one that was counted.
\<close>

lemma scan_positions_occur:
  "p \<in> set (scan_positions kw tx start) \<Longrightarrow> start \<le> p \<and> occurs_at kw tx p"
proof (induction kw tx start rule: scan_positions.induct)
  case (1 kw tx start)
  then show ?case
    by (subst (asm) (3) scan_positions.simps)
       (fastforce simp: occurs_at_def split: if_splits)
qed

lemma scan_positions_apart:
  "sorted_wrt (\<lambda>p q. p + length kw \<le> q) (scan_positions kw tx start)"
proof (induction kw tx start rule: scan_positions.induct)
  case (1 kw tx start)
  show ?case
    using "1.IH" scan_positions_occur [of _ kw tx "start + length kw"]
    by (subst scan_positions.simps) auto
qed

lemma scan_positions_greedy:
  "occurs_at kw tx q \<Longrightarrow> start \<le> q \<Longrightarrow> kw \<noteq> [] \<Longrightarrow>
   \<exists>p\<in>set (scan_positions kw tx start). p \<le> q \<and> q < p + length kw"
proof (induction kw tx start rule: scan_positions.induct)
  case (1 kw tx start)
  have room: "\<not> length tx < start + length kw"
    using "1.prems" by (simp add: occurs_at_def)
  show ?case
  proof (cases "take (length kw) (drop start tx) = kw")
    case True
    show ?thesis
    proof (cases "q < start + length kw")
      case True
      with \<open>take (length kw) (drop start tx) = kw\<close> room "1.prems" show ?thesis
        by (subst scan_positions.simps) auto
    next
      case False
      then have "start + length kw \<le> q" by simp
      from "1.IH"(1) [OF _ True "1.prems"(1) this "1.prems"(3)] room "1.prems"(3) True
      show ?thesis
        by (subst scan_positions.simps) auto
    qed
  next
    case False
    with "1.prems" have "q \<noteq> start" by (auto simp: occurs_at_def)
    with "1.prems" have "Suc start \<le> q" by simp
    from "1.IH"(2) [OF _ False "1.prems"(1) this "1.prems"(3)] room "1.prems"(3) False
    show ?thesis
      by (subst scan_positions.simps) auto
  qed
qed

lemma topic_count_nonneg: "0 \<le> topic_count tx identifiers"
  unfolding topic_count_def by (rule sum_list_nonneg) auto

text \<open>
  The scan finds at most one position per character of the text, so a topic with \<open>k\<close>
  keywords has at most \<open>k\<close> times the length of the text occurrences.
\<close>

lemma scan_positions_length: "length (scan_positions kw tx start) \<le> length tx - start"
proof (induction kw tx start rule: scan_positions.induct)
  case (1 kw tx start)
  show ?case
  proof (cases "kw = [] \<or> length tx < start + length kw")
    case True
    then show ?thesis by (simp add: scan_positions.simps [of kw tx start])
  next
    case False
    then obtain c cs where kw: "kw = c # cs" and room: "start + length kw \<le> length tx"
      by (cases kw) simp_all
    show ?thesis
    proof (cases "take (length kw) (drop start tx) = kw")
      case True
      from "1.IH"(1) [OF False True] kw room True False show ?thesis
        by (subst scan_positions.simps) simp
    next
      case no: False
      from "1.IH"(2) [OF False no] kw room no False show ?thesis
        by (subst scan_positions.simps) simp
    qed
  qed
qed

lemma topic_count_le: "topic_count tx identifiers \<le> int (length identifiers * length tx)"
proof (induction identifiers)
  case Nil
  then show ?case by (simp add: topic_count_def)
next
  case (Cons kw identifiers)
  have "length (scan_positions kw tx 0) \<le> length tx"
    using scan_positions_length [of kw tx 0] by simp
  with Cons.IH show ?case by (simp add: topic_count_Cons)
qed

text \<open>
  Claim C1, amended to catalogs whose keywords are all non-empty and to texts in which
  the keywords of no topic have \<open>2^31\<close> or more occurrences in total (which holds as soon
  as the number of keywords of a topic times the length of the text stays below \<open>2^31\<close>:
  lemma \<open>topic_count_le\<close>). For every such catalog and text both matchers return, and
  the count of each topic is the sum over its keywords of the number of positions that the
  left-to-right scan of the specification finds from position 0, resuming at occurrence
  start plus keyword length. Those positions are occurrences of the keyword, no two of
  them overlap, and every occurrence of the keyword in the text starts inside a counted
  one. The witness is the keyword \<open>aa\<close> in the text \<open>aaaa\<close>: the positions are 0 and 2
  and the count is 2.
\<close>

theorem nonoverlapping_counts:
  assumes "\<forall>(topic, identifiers)\<in>set catalog. [] \<notin> set identifiers"
    and "\<forall>(topic, identifiers)\<in>set catalog. topic_count text identifiers < 2147483648"
  shows "classify_topics text catalog []
           = Some (map (\<lambda>(topic, identifiers). (topic, topic_count text identifiers)) catalog) \<and>
         findAllOccurrences_topics text catalog []
           = Some (map (\<lambda>(topic, identifiers).
                \<lparr>topicName = topic, count = topic_count text identifiers\<rparr>) catalog) \<and>
         (\<forall>(topic, identifiers)\<in>set catalog. \<forall>kw\<in>set identifiers.
            (\<forall>p\<in>set (scan_positions kw text 0). occurs_at kw text p) \<and>
            sorted_wrt (\<lambda>p q. p + length kw \<le> q) (scan_positions kw text 0) \<and>
            (\<forall>q. occurs_at kw text q \<longrightarrow>
                 (\<exists>p\<in>set (scan_positions kw text 0). p \<le> q \<and> q < p + length kw)))"
proof (intro conjI)
  have fits: "int32 (topic_count text identifiers) = topic_count text identifiers"
    if "(topic, identifiers) \<in> set catalog" for topic identifiers
  proof (rule int32_id)
    show "- 2147483648 \<le> topic_count text identifiers"
      using topic_count_nonneg [of "text" identifiers] by simp
    show "topic_count text identifiers < 2147483648"
      using assms(2) that by auto
  qed
  have "classify_topics text catalog []
        = Some (map (\<lambda>(topic, identifiers). (topic, int32 (topic_count text identifiers)))
                 catalog)"
    using classify_topics_total [OF assms(1), of _ "[]"] by simp
  also have "map (\<lambda>(topic, identifiers). (topic, int32 (topic_count text identifiers))) catalog
        = map (\<lambda>(topic, identifiers). (topic, topic_count text identifiers)) catalog"
    by (rule map_cong) (auto simp: fits)
  finally show "classify_topics text catalog []
           = Some (map (\<lambda>(topic, identifiers). (topic, topic_count text identifiers)) catalog)" .
  have "findAllOccurrences_topics text catalog []
        = Some (map (\<lambda>(topic, identifiers).
                \<lparr>topicName = topic, count = int32 (topic_count text identifiers)\<rparr>) catalog)"
    using findAllOccurrences_topics_total [OF assms(1), of _ "[]"] by simp
  also have "map (\<lambda>(topic, identifiers).
                \<lparr>topicName = topic, count = int32 (topic_count text identifiers)\<rparr>) catalog
        = map (\<lambda>(topic, identifiers).
                \<lparr>topicName = topic, count = topic_count text identifiers\<rparr>) catalog"
    by (rule map_cong) (auto simp: fits)
  finally show "findAllOccurrences_topics text catalog []
           = Some (map (\<lambda>(topic, identifiers).
                \<lparr>topicName = topic, count = topic_count text identifiers\<rparr>) catalog)" .
  show "\<forall>(topic, identifiers)\<in>set catalog. \<forall>kw\<in>set identifiers.
            (\<forall>p\<in>set (scan_positions kw text 0). occurs_at kw text p) \<and>
            sorted_wrt (\<lambda>p q. p + length kw \<le> q) (scan_positions kw text 0) \<and>
            (\<forall>q. occurs_at kw text q \<longrightarrow>
                 (\<exists>p\<in>set (scan_positions kw text 0). p \<le> q \<and> q < p + length kw))"
  proof (intro ballI, clarify, intro conjI ballI allI impI)
    fix topic identifiers kw p
    assume "p \<in> set (scan_positions kw text 0)"
    then show "occurs_at kw text p" using scan_positions_occur by blast
  next
    fix topic identifiers kw
    show "sorted_wrt (\<lambda>p q. p + length kw \<le> q) (scan_positions kw text 0)"
      by (rule scan_positions_apart)
  next
    fix topic identifiers kw q
    assume "(topic, identifiers) \<in> set catalog" "kw \<in> set identifiers"
    with assms(1) have "kw \<noteq> []" by auto
    moreover assume "occurs_at kw text q"
    ultimately show "\<exists>p\<in>set (scan_positions kw text 0). p \<le> q \<and> q < p + length kw"
      using scan_positions_greedy [of kw _ q 0] by simp
  qed
qed

theorem nonoverlapping_counts_witness:
  "classify_topics ''aaaa'' [(''T'', [''aa''])] [] = Some [(''T'', 2)] \<and>
   findAllOccurrences_topics ''aaaa'' [(''T'', [''aa''])] []
     = Some [\<lparr>topicName = ''T'', count = 2\<rparr>] \<and>
   scan_positions ''aa'' ''aaaa'' 0 = [0, 2] \<and>
   occurs_at ''aa'' ''aaaa'' 1 \<and>
   topic_count ''aaaa'' [''aa''] < 2147483648"
proof -
  have s: "scan_positions ''aa'' ''aaaa'' 0 = [0, 2]" by (simp add: scan_positions.simps)
  have t: "topic_count ''aaaa'' [''aa''] = 2"
    by (simp add: topic_count_def occurrence_count_def s)
  have h1: "\<forall>(topic, identifiers)\<in>set [(''T'', [''aa''])]. [] \<notin> set identifiers" by simp
  have h2: "\<forall>(topic, identifiers)\<in>set [(''T'', [''aa''])].
              topic_count ''aaaa'' identifiers < 2147483648"
    by (simp add: t)
  have o: "occurs_at ''aa'' ''aaaa'' 1" by (simp add: occurs_at_def)
  from nonoverlapping_counts [OF h1 h2] s o t show ?thesis by simp
qed

text \<open>The scenario of the specification: two topics, two keywords each.\<close>

lemma scenario_animals_colors:
  "classify_topics ''the cat is red and the dog is red''
     [(''Animals'', [''cat'', ''dog'']), (''Colors'', [''red'', ''blue''])] []
   = Some [(''Animals'', 2), (''Colors'', 2)]"
  by (simp add: str_find_def count_loop_Some int32_def)

text \<open>
  A text of \<open>n\<close> equal characters holds \<open>n\<close> occurrences of that character.
\<close>

lemma scan_positions_replicate:
  "start \<le> n \<Longrightarrow> length (scan_positions [c] (replicate n c) start) = n - start"
proof (induction "n - start" arbitrary: start)
  case 0
  then show ?case by (subst scan_positions.simps) simp
next
  case (Suc k)
  then have lt: "start < n" and k: "k = n - Suc start" by simp_all
  have "take (Suc 0) (drop start (replicate n c)) = [c]"
    using lt by (cases "n - start") simp_all
  moreover have "length (scan_positions [c] (replicate n c) (Suc start)) = n - Suc start"
    using Suc.hyps(1) [OF k] lt by simp
  ultimately show ?case
    using lt by (simp add: scan_positions.simps [of "[c]" "replicate n c" start])
qed

text \<open>
  Claim C1 as stated, for every catalog and every text, fails in two ways. On a catalog
  with an empty keyword the search finds the empty keyword at position 0 and resumes at
  position 0 + 0, for ever: the matcher returns no count. And a topic of 1024 keywords
  \<open>a\<close> has \<open>2^31\<close> occurrences in a text of \<open>2^21\<close> characters \<open>a\<close>, where the 32-bit
  counter holds \<open>-2^31\<close>.
\<close>

theorem no_count_or_wrapped_count:
  "classify_topics ''ab'' [(''T'', [[]])] [] = None \<and>
   classify_topics (replicate 2097152 CHR ''a'') [(''U'', replicate 1024 ''a'')] []
     = Some [(''U'', - 2147483648)]"
proof
  show "classify_topics ''ab'' [(''T'', [[]])] [] = None"
    by (simp add: str_find_def count_loop_empty_diverges)
  have ne: "\<forall>(topic, identifiers)\<in>set [(''U'', replicate 1024 ''a'')]. [] \<notin> set identifiers"
    by simp
  have "occurrence_count ''a'' (replicate 2097152 CHR ''a'') = 2097152"
    using scan_positions_replicate [of 0 2097152 "CHR ''a''"]
    by (simp add: occurrence_count_def)
  then have "topic_count (replicate 2097152 CHR ''a'') (replicate 1024 ''a'') = 2147483648"
    by (simp add: topic_count_def sum_list_replicate)
  with classify_topics_total [OF ne, of "replicate 2097152 CHR ''a''" "[]"]
  show "classify_topics (replicate 2097152 CHR ''a'') [(''U'', replicate 1024 ''a'')] []
     = Some [(''U'', - 2147483648)]"
    by (simp add: int32_def)
qed

text \<open>
  The shape of the result of the matcher, for catalogs whose keywords are non-empty and
  texts within the bound of the counter: one pair per topic of the catalog, in the order
  of the catalog, no count negative, and count 0 for a topic without keywords.
\<close>

lemma classify_topics_shape:
  assumes "\<forall>(topic, identifiers)\<in>set catalog. [] \<notin> set identifiers"
    and "\<forall>(topic, identifiers)\<in>set catalog. topic_count text identifiers < 2147483648"
  shows "\<exists>topics. classify_topics text catalog [] = Some topics \<and>
     map fst topics = map fst catalog \<and>
     (\<forall>(topic, cnt)\<in>set topics. 0 \<le> cnt) \<and>
     (\<forall>i<length catalog. snd (catalog ! i) = [] \<longrightarrow> snd (topics ! i) = 0)"
proof -
  let ?topics = "map (\<lambda>(topic, identifiers). (topic, topic_count text identifiers)) catalog"
  have fits: "int32 (topic_count text identifiers) = topic_count text identifiers"
    if "(topic, identifiers) \<in> set catalog" for topic identifiers
  proof (rule int32_id)
    show "- 2147483648 \<le> topic_count text identifiers"
      using topic_count_nonneg [of "text" identifiers] by simp
    show "topic_count text identifiers < 2147483648"
      using assms(2) that by auto
  qed
  have "map (\<lambda>(topic, identifiers). (topic, int32 (topic_count text identifiers))) catalog
        = ?topics"
    by (rule map_cong) (auto simp: fits)
  then have "classify_topics text catalog [] = Some ?topics"
    using classify_topics_total [OF assms(1), of _ "[]"] by simp
  moreover have "map fst ?topics = map fst catalog" by (induction catalog) auto
  moreover have "\<forall>(topic, cnt)\<in>set ?topics. 0 \<le> cnt"
    by (auto simp: topic_count_nonneg)
  moreover have "\<forall>i<length catalog. snd (catalog ! i) = [] \<longrightarrow> snd (?topics ! i) = 0"
    by (auto simp: topic_count_def split: prod.splits)
  ultimately show ?thesis by blast
qed

subsection \<open>Replication of the catalog\<close>

lemma write_items_eq: "write_items items ss = ss @ concat (map (\<lambda>item. item @ '','') items)"
  by (induction items arbitrary: ss) auto

lemma write_catalog_eq: "write_catalog catalog ss = ss @ concat (map encode_entry catalog)"
  by (induction catalog arbitrary: ss) (auto simp: write_items_eq encode_entry_def)

lemma serialized_catalog_eq: "serialized_catalog catalog = concat (map encode_entry catalog)"
  by (simp add: serialized_catalog_def write_catalog_eq)

lemma getline_Some:
  assumes "getline s delim = Some (x, rest)"
  shows "delim \<notin> set x" and "set x \<subseteq> set s" and "set rest \<subseteq> set s"
proof -
  from assms obtain c cs where s: "s = c # cs" by (cases s) auto
  with assms have x: "x = takeWhile (\<lambda>x. x \<noteq> delim) s"
    and r: "rest = drop 1 (dropWhile (\<lambda>x. x \<noteq> delim) s)" by auto
  show "delim \<notin> set x" unfolding x by (auto dest: set_takeWhileD)
  show "set x \<subseteq> set s" unfolding x by (auto dest: set_takeWhileD)
  show "set rest \<subseteq> set s" unfolding r by (auto dest!: in_set_dropD set_dropWhileD)
qed

lemma getline_append:
  assumes "delim \<notin> set x"
  shows "getline (x @ delim # rest) delim = Some (x, rest)"
proof -
  have t: "takeWhile (\<lambda>c. c \<noteq> delim) (x @ delim # rest) = x"
    using assms by (induction x) auto
  have d: "dropWhile (\<lambda>c. c \<noteq> delim) (x @ delim # rest) = delim # rest"
    using assms by (induction x) auto
  obtain c cs where "x @ delim # rest = c # cs" by (cases x) auto
  then have "getline (x @ delim # rest) delim
      = Some (takeWhile (\<lambda>c. c \<noteq> delim) (x @ delim # rest),
              drop 1 (dropWhile (\<lambda>c. c \<noteq> delim) (x @ delim # rest)))"
    by simp
  then show ?thesis by (simp only: t d) simp
qed

lemma read_items_set:
  "\<forall>item\<in>set (read_items iss items) - set items. CHR '','' \<notin> set item \<and> set item \<subseteq> set iss"
proof (induction iss items rule: read_items.induct)
  case (1 iss items)
  show ?case
  proof (cases "getline iss CHR '',''")
    case None
    then show ?thesis by (simp add: read_items.simps [of iss])
  next
    case (Some a)
    obtain item rest where a: "a = (item, rest)" by (cases a)
    from getline_Some [OF Some [unfolded a]] "1.IH" [OF Some [unfolded a] refl]
    show ?thesis
      using Some a by (subst read_items.simps) auto
  qed
qed

lemma map_assign_set: "set (map_assign k v m) \<subseteq> insert (k, v) (set m)"
  by (induction m) (auto split: if_splits)

lemma decode_entries_separator_free:
  "\<forall>e\<in>set catalog. separator_free e \<Longrightarrow> \<forall>e\<in>set (decode_entries ss catalog). separator_free e"
proof (induction ss catalog rule: decode_entries.induct)
  case (1 ss catalog)
  show ?case
  proof (cases "getline ss CHR '';''")
    case None
    then show ?thesis using "1.prems" by (simp add: decode_entries.simps [of ss])
  next
    case (Some a)
    obtain entry rest where a: "a = (entry, rest)" by (cases a)
    note g = getline_Some [OF Some [unfolded a]]
    let ?catalog' = "case getline entry CHR '':'' of
               None \<Rightarrow> map_assign [] [] catalog
             | Some (category, iss) \<Rightarrow> map_assign category (read_items iss []) catalog"
    have "\<forall>e\<in>set ?catalog'. separator_free e"
    proof (cases "getline entry CHR '':''")
      case None
      then show ?thesis
        using "1.prems" map_assign_set [of "[]" "[]" catalog]
        by (auto simp: separator_free_def)
    next
      case (Some b)
      obtain category iss where b: "b = (category, iss)" by (cases b)
      note h = getline_Some [OF Some [unfolded b]]
      have "separator_free (category, read_items iss [])"
        using g h read_items_set [of iss "[]"]
        by (simp add: separator_free_def) blast
      then show ?thesis
        using "1.prems" map_assign_set [of category "read_items iss []" catalog] Some b
        by auto
    qed
    from "1.IH" [OF Some [unfolded a] refl this] show ?thesis
      using Some a by (subst decode_entries.simps) simp
  qed
qed

lemma decoded_is_separator_free:
  "\<forall>e\<in>set (worker_catalog received_catalog beyond). separator_free e"
  unfolding worker_catalog_def by (rule decode_entries_separator_free) simp

lemma read_items_encoded:
  "\<forall>item\<in>set items. CHR '','' \<notin> set item \<Longrightarrow>
   read_items (concat (map (\<lambda>item. item @ '','') items)) acc = acc @ items"
proof (induction items arbitrary: acc)
  case Nil
  then show ?case by (simp add: read_items.simps)
next
  case (Cons item items)
  then have i: "CHR '','' \<notin> set item" and rest: "\<forall>item\<in>set items. CHR '','' \<notin> set item"
    by simp_all
  let ?rest = "concat (map (\<lambda>item. item @ '','') items)"
  have "getline (item @ CHR '','' # ?rest) CHR '','' = Some (item, ?rest)"
    by (rule getline_append [OF i])
  then show ?case
    using Cons.IH [OF rest, of "acc @ [item]"]
    by (subst read_items.simps) simp
qed

lemma decode_entries_encoded:
  "\<forall>e\<in>set c. separator_free e \<Longrightarrow>
   decode_entries (concat (map encode_entry c)) acc = fold (\<lambda>(t, ids). map_assign t ids) c acc"
proof (induction c arbitrary: acc)
  case Nil
  then show ?case by (simp add: decode_entries.simps)
next
  case (Cons e c)
  obtain t ids where e: "e = (t, ids)" by (cases e)
  from Cons.prems e have sf: "separator_free (t, ids)" and rest: "\<forall>e\<in>set c. separator_free e"
    by simp_all
  let ?istr = "concat (map (\<lambda>item. item @ '','') ids)"
  let ?entry = "t @ CHR '':'' # ?istr"
  let ?rest = "concat (map encode_entry c)"
  have noc: "\<forall>item\<in>set ids. CHR '','' \<notin> set item" using sf by (simp add: separator_free_def)
  have "CHR '';'' \<notin> set ?entry" using sf by (auto simp: separator_free_def)
  then have g1: "getline (?entry @ CHR '';'' # ?rest) CHR '';'' = Some (?entry, ?rest)"
    by (rule getline_append)
  have "CHR '':'' \<notin> set t" using sf by (simp add: separator_free_def)
  then have g2: "getline ?entry CHR '':'' = Some (t, ?istr)"
    by (rule getline_append)
  have stream: "concat (map encode_entry (e # c)) = ?entry @ CHR '';'' # ?rest"
    by (simp add: e encode_entry_def)
  show ?case
    unfolding stream
    using g1 g2 read_items_encoded [OF noc, of "[]"] Cons.IH [OF rest]
    by (subst decode_entries.simps) (simp add: e)
qed

lemma map_assign_last:
  "\<forall>k'\<in>set (map fst m). k' < k \<Longrightarrow> map_assign k v m = m @ [(k, v)]"
  by (induction m) auto

lemma fold_assign_sorted:
  "sorted_wrt (<) (map fst (acc @ c)) \<Longrightarrow>
   fold (\<lambda>(t, ids). map_assign t ids) c acc = acc @ c"
proof (induction c arbitrary: acc)
  case Nil
  then show ?case by simp
next
  case (Cons e c)
  obtain t ids where e: "e = (t, ids)" by (cases e)
  from Cons.prems have "\<forall>k'\<in>set (map fst acc). k' < t"
    by (auto simp: e sorted_wrt_append)
  then have "map_assign t ids acc = acc @ [(t, ids)]" by (rule map_assign_last)
  moreover from Cons.prems have "sorted_wrt (<) (map fst ((acc @ [(t, ids)]) @ c))"
    by (simp add: e)
  ultimately show ?case
    using Cons.IH [of "acc @ [(t, ids)]"] by (simp add: e)
qed

lemma c_string_append:
  "CHR 0x00 \<notin> set s \<Longrightarrow> c_string beyond = [] \<Longrightarrow> c_string (s @ beyond) = s"
  unfolding c_string_def by (induction s) auto

lemma catalog_round_trip:
  assumes "sorted_wrt (<) (map fst c)"
    and "\<forall>e\<in>set c. separator_free e"
    and "CHR 0x00 \<notin> set (serialized_catalog c)"
    and "c_string beyond = []"
  shows "worker_catalog (serialized_catalog c) beyond = c"
proof -
  have "worker_catalog (serialized_catalog c) beyond = decode_entries (serialized_catalog c) []"
    using assms(3,4) by (simp add: worker_catalog_def c_string_append)
  also have "\<dots> = fold (\<lambda>(t, ids). map_assign t ids) c []"
    using assms(2) by (simp add: serialized_catalog_eq decode_entries_encoded)
  also have "\<dots> = c" using assms(1) fold_assign_sorted [of "[]" c] by simp
  finally show ?thesis .
qed

text \<open>
  Claim C2. The round trip holds for a catalog without the separators when, in addition,
  no token contains a NUL byte and the byte that follows the received array is NUL
  (lemma \<open>catalog_round_trip\<close>). The program guarantees neither: the catalog is sent
  without a terminator, unlike the document names, which are sent with one. With another
  byte after the array the worker decodes an extra entry; with a NUL byte inside a topic
  name the worker loses the rest of the catalog, whatever follows the array.
\<close>

theorem catalog_round_trip_fails:
  "worker_catalog (serialized_catalog [(''Animals'', [''cat''])]) ''z''
     = [(''Animals'', [''cat'']), (''z'', [])] \<and>
   (\<forall>beyond. worker_catalog
      (serialized_catalog [([CHR ''A'', CHR 0x00, CHR ''B''], [''x''])]) beyond = [(''A'', [])])"
  by (simp add: worker_catalog_def serialized_catalog_def c_string_def
      read_items.simps decode_entries.simps)

text \<open>
  Claim C8 as stated fails: a keyword with a \<open>;\<close> is neither rejected nor escaped, and
  the worker ends up with another catalog.
\<close>

theorem separator_not_rejected:
  "worker_catalog (serialized_catalog [(''A'', [''x;y''])]) [CHR 0x00]
     = [(''A'', [''x'']), (''y,'', [])]"
  by (simp add: worker_catalog_def serialized_catalog_def c_string_def
      read_items.simps decode_entries.simps)

text \<open>
  Claim C8, amended. The codec neither rejects nor escapes: the serialised catalog is
  the plain concatenation of the tokens and the separators, and for every catalog in which
  a topic name contains \<open>:\<close> or \<open>;\<close>, or a keyword contains \<open>,\<close> or \<open>;\<close>, the
  catalog that the worker decodes differs from the original, whatever follows the
  received array.
\<close>

theorem separators_silently_corrupt:
  assumes "\<exists>(topic, identifiers)\<in>set catalog.
     CHR '':'' \<in> set topic \<or> CHR '';'' \<in> set topic \<or>
     (\<exists>item\<in>set identifiers. CHR '','' \<in> set item \<or> CHR '';'' \<in> set item)"
  shows "serialized_catalog catalog
           = concat (map (\<lambda>(topic, identifiers).
               topic @ '':'' @ concat (map (\<lambda>item. item @ '','') identifiers) @ '';'') catalog) \<and>
         worker_catalog (serialized_catalog catalog) beyond \<noteq> catalog"
proof
  have "encode_entry = (\<lambda>(topic, identifiers).
               topic @ '':'' @ concat (map (\<lambda>item. item @ '','') identifiers) @ '';'')"
    by (auto simp: encode_entry_def fun_eq_iff)
  then show "serialized_catalog catalog
           = concat (map (\<lambda>(topic, identifiers).
               topic @ '':'' @ concat (map (\<lambda>item. item @ '','') identifiers) @ '';'') catalog)"
    by (simp add: serialized_catalog_eq)
  from assms obtain topic identifiers where e: "(topic, identifiers) \<in> set catalog"
    and bad: "CHR '':'' \<in> set topic \<or> CHR '';'' \<in> set topic \<or>
     (\<exists>item\<in>set identifiers. CHR '','' \<in> set item \<or> CHR '';'' \<in> set item)"
    by blast
  from bad have "\<not> separator_free (topic, identifiers)"
    by (auto simp: separator_free_def)
  with e decoded_is_separator_free [of "serialized_catalog catalog" beyond]
  show "worker_catalog (serialized_catalog catalog) beyond \<noteq> catalog" by auto
qed


theorem separators_silently_corrupt_witness:
  "(\<exists>(topic, identifiers)\<in>set [(''A'', [''x;y''])].
     CHR '':'' \<in> set topic \<or> CHR '';'' \<in> set topic \<or>
     (\<exists>item\<in>set identifiers. CHR '','' \<in> set item \<or> CHR '';'' \<in> set item)) \<and>
   serialized_catalog [(''A'', [''x;y''])] = ''A:x;y,;'' \<and>
   worker_catalog (serialized_catalog [(''A'', [''x;y''])]) [CHR 0x00] \<noteq> [(''A'', [''x;y''])]"
proof -
  have h: "\<exists>(topic, identifiers)\<in>set [(''A'', [''x;y''])].
     CHR '':'' \<in> set topic \<or> CHR '';'' \<in> set topic \<or>
     (\<exists>item\<in>set identifiers. CHR '','' \<in> set item \<or> CHR '';'' \<in> set item)"
    by simp
  from separators_silently_corrupt [OF h, of "[CHR 0x00]"]
  have a: "serialized_catalog [(''A'', [''x;y''])]
           = concat (map (\<lambda>(topic, identifiers).
               topic @ '':'' @ concat (map (\<lambda>item. item @ '','') identifiers) @ '';'')
               [(''A'', [''x;y''])])"
    and b: "worker_catalog (serialized_catalog [(''A'', [''x;y''])]) [CHR 0x00]
            \<noteq> [(''A'', [''x;y''])]"
    by blast+
  from a have "serialized_catalog [(''A'', [''x;y''])] = ''A:x;y,;''" by simp
  with h b show ?thesis by blast
qed

subsection \<open>Partitioning\<close>


lemma messages_to_Cons:
  "messages_to k ((i, m) # sends) = (if i = k then m # messages_to k sends else messages_to k sends)"
  by (simp add: messages_to_def)

lemma messages_to_Nil [simp]: "messages_to k [] = []"
  by (simp add: messages_to_def)









text \<open>
  \<open>take_documents\<close> is the receive loop of the worker: a run of the loop that reaches
  its end has taken these documents and classified each of them, in order.
\<close>

lemma receive_documents_takes:
  "receive_documents catalog files n inbox = Some r \<Longrightarrow> stopped r = None \<Longrightarrow>
   \<exists>ds. take_documents n inbox = Some ds \<and> length ds = n \<and>
     [fileName x. Classified x \<leftarrow> events r] = map getFileNameFromPath ds"
proof (induction catalog files n inbox arbitrary: r rule: receive_documents.induct)
  case (1 catalog files inbox)
  then show ?case by auto
next
  case (2 catalog files n docSize document inbox)
  from "2.prems" obtain result r' where
    c: "classifyDocument catalog (c_string document) (files (c_string document))
        = Some (Inr result)"
    and r': "receive_documents catalog files n inbox = Some r'"
    and r: "r = r'\<lparr>events := [Call (MPI_Recv (Int_msg docSize)),
              Call (MPI_Recv (Chars_msg document))] @ Classified result # events r'\<rparr>"
    by (auto simp: Let_def split: option.splits sum.splits)
  from "2.prems"(2) r have "stopped r' = None" by simp
  from "2.IH" [OF refl c refl r' this] obtain ds where
    ds: "take_documents n inbox = Some ds" "length ds = n"
      "[fileName x. Classified x \<leftarrow> events r'] = map getFileNameFromPath ds"
    by blast
  have "fileName result = getFileNameFromPath (c_string document)"
    using c by (auto simp: classifyDocument_def split: option.splits)
  with ds r show ?case by simp
qed simp_all

text \<open>The inbox of a rank in a run of rank 0 holds the messages sent to it.\<close>

lemma inbox_of_sends:
  "inbox_of i (map (\<lambda>(j, m). Call (MPI_Send j m)) sends) = messages_to i sends"
  by (induction sends) (auto simp: messages_to_Cons)



subsection \<open>Dominant topic\<close>

lemma relevant_loop_cases:
  "relevant_loop rs m0 t0 = (m, t) \<Longrightarrow>
     ((\<forall>r\<in>set rs. count r \<le> m0) \<and> m = m0 \<and> t = t0) \<or>
     (\<exists>pre r post. rs = pre @ r # post \<and> t = topicName r \<and> m = count r \<and> m0 < count r \<and>
        (\<forall>x\<in>set pre. count x < count r) \<and> (\<forall>x\<in>set post. count x \<le> count r))"
proof (induction rs arbitrary: m0 t0)
  case Nil
  then show ?case by simp
next
  case (Cons a rs)
  show ?case
  proof (cases "count a > m0")
    case True
    with Cons.prems have "relevant_loop rs (count a) (topicName a) = (m, t)" by simp
    from Cons.IH [OF this] show ?thesis
    proof
      assume "(\<forall>r\<in>set rs. count r \<le> count a) \<and> m = count a \<and> t = topicName a"
      then have "a # rs = [] @ a # rs \<and> t = topicName a \<and> m = count a \<and> m0 < count a \<and>
        (\<forall>x\<in>set []. count x < count a) \<and> (\<forall>x\<in>set rs. count x \<le> count a)"
        using True by simp
      then show ?thesis by blast
    next
      assume "\<exists>pre r post. rs = pre @ r # post \<and> t = topicName r \<and> m = count r \<and>
        count a < count r \<and> (\<forall>x\<in>set pre. count x < count r) \<and>
        (\<forall>x\<in>set post. count x \<le> count r)"
      then obtain pre r post where
        "rs = pre @ r # post" "t = topicName r" "m = count r" "count a < count r"
        "\<forall>x\<in>set pre. count x < count r" "\<forall>x\<in>set post. count x \<le> count r"
        by blast
      then have "a # rs = (a # pre) @ r # post \<and> t = topicName r \<and> m = count r \<and>
        m0 < count r \<and> (\<forall>x\<in>set (a # pre). count x < count r) \<and>
        (\<forall>x\<in>set post. count x \<le> count r)"
        using True by simp
      then show ?thesis by blast
    qed
  next
    case False
    with Cons.prems have "relevant_loop rs m0 t0 = (m, t)" by simp
    from Cons.IH [OF this] show ?thesis
    proof
      assume "(\<forall>r\<in>set rs. count r \<le> m0) \<and> m = m0 \<and> t = t0"
      then show ?thesis using False by simp
    next
      assume "\<exists>pre r post. rs = pre @ r # post \<and> t = topicName r \<and> m = count r \<and>
        m0 < count r \<and> (\<forall>x\<in>set pre. count x < count r) \<and>
        (\<forall>x\<in>set post. count x \<le> count r)"
      then obtain pre r post where
        "rs = pre @ r # post" "t = topicName r" "m = count r" "m0 < count r"
        "\<forall>x\<in>set pre. count x < count r" "\<forall>x\<in>set post. count x \<le> count r"
        by blast
      then have "a # rs = (a # pre) @ r # post \<and> t = topicName r \<and> m = count r \<and>
        m0 < count r \<and> (\<forall>x\<in>set (a # pre). count x < count r) \<and>
        (\<forall>x\<in>set post. count x \<le> count r)"
        using False by simp
      then show ?thesis by blast
    qed
  qed
qed

lemma determineRelevantTopics_loop_map:
  "determineRelevantTopics_loop matches acc =
     acc ++ map_of (rev (map (\<lambda>(d, ts). (d, snd (relevant_loop ts 0 ''''))) matches))"
  by (induction matches arbitrary: acc) (auto simp: map_add_upd_left)

text \<open>The entry of a document name comes from the last result stored under that name.\<close>

lemma determineRelevantTopics_last:
  "map_of (rev matches) docName = Some topics \<Longrightarrow>
   determineRelevantTopics matches docName = Some (snd (relevant_loop topics 0 ''''))"
proof -
  assume a: "map_of (rev matches) docName = Some topics"
  have "map_of (map (\<lambda>(d, ts). (d, snd (relevant_loop ts 0 ''''))) xs) docName
        = map_option (\<lambda>ts. snd (relevant_loop ts 0 '''')) (map_of xs docName)" for xs
    by (induction xs) auto
  from this [of "rev matches"] a show ?thesis
    by (simp add: determineRelevantTopics_def determineRelevantTopics_loop_map rev_map)
qed

text \<open>
  Claim C5. For the per-topic counts of a document (the result stored last under its
  name; with distinct document names, its only result), the topic chosen is the first
  one, in the order of the list, that carries the largest count: every topic before it has
  a strictly smaller count and every topic after it a smaller or equal one, so a later
  topic with an equal count does not replace it. When no count is positive the chosen
  topic is empty. The witness is the scenario of the specification: Animals 2, Colors 2
  gives Animals.
\<close>

theorem dominant_topic_first_maximum:
  assumes "map_of (rev matches) docName = Some topics"
  shows "\<exists>t. determineRelevantTopics matches docName = Some t \<and>
     (if \<forall>r\<in>set topics. count r \<le> 0 then t = []
      else \<exists>pre r post. topics = pre @ r # post \<and> t = topicName r \<and>
             (\<forall>x\<in>set pre. count x < count r) \<and> (\<forall>x\<in>set post. count x \<le> count r))"
proof -
  from assms have d: "determineRelevantTopics matches docName
                = Some (snd (relevant_loop topics 0 []))"
    by (rule determineRelevantTopics_last)
  obtain m t where mt: "relevant_loop topics 0 [] = (m, t)"
    by (cases "relevant_loop topics 0 []")
  from relevant_loop_cases [OF mt] have
    "if \<forall>r\<in>set topics. count r \<le> 0 then t = []
      else \<exists>pre r post. topics = pre @ r # post \<and> t = topicName r \<and>
             (\<forall>x\<in>set pre. count x < count r) \<and> (\<forall>x\<in>set post. count x \<le> count r)"
  proof
    assume "(\<forall>r\<in>set topics. count r \<le> 0) \<and> m = 0 \<and> t = []"
    then show ?thesis by simp
  next
    assume "\<exists>pre r post. topics = pre @ r # post \<and> t = topicName r \<and> m = count r \<and>
        0 < count r \<and> (\<forall>x\<in>set pre. count x < count r) \<and>
        (\<forall>x\<in>set post. count x \<le> count r)"
    then obtain pre r post where
      *: "topics = pre @ r # post" "t = topicName r" "0 < count r"
        "\<forall>x\<in>set pre. count x < count r" "\<forall>x\<in>set post. count x \<le> count r"
      by blast
    then have "\<not> (\<forall>r\<in>set topics. count r \<le> 0)" by auto
    with * show ?thesis by auto
  qed
  with d mt show ?thesis by simp
qed

text \<open>With distinct document names the last result under a name is its only one.\<close>

lemma distinct_names_last:
  "(docName, topics) \<in> set matches \<Longrightarrow> distinct (map fst matches) \<Longrightarrow>
   map_of (rev matches) docName = Some topics"
  by (simp add: rev_map [symmetric])

theorem dominant_topic_first_maximum_witness:
  "map_of (rev [(''doc.txt'',
       [\<lparr>topicName = ''Animals'', count = 2\<rparr>, \<lparr>topicName = ''Colors'', count = 2\<rparr>])])
     ''doc.txt''
     = Some [\<lparr>topicName = ''Animals'', count = 2\<rparr>, \<lparr>topicName = ''Colors'', count = 2\<rparr>] \<and>
   determineRelevantTopics
     [(''doc.txt'', [\<lparr>topicName = ''Animals'', count = 2\<rparr>, \<lparr>topicName = ''Colors'', count = 2\<rparr>])]
     ''doc.txt'' = Some ''Animals''"
proof -
  let ?topics = "[\<lparr>topicName = ''Animals'', count = 2\<rparr>, \<lparr>topicName = ''Colors'', count = 2\<rparr>]"
  have h: "map_of (rev [(''doc.txt'', ?topics)]) ''doc.txt'' = Some ?topics" by simp
  from dominant_topic_first_maximum [OF h] h
  show ?thesis by (simp add: determineRelevantTopics_def)
qed

text \<open>
  Claim C10. A document all of whose stored results have count 0 for every topic is
  mapped to the empty string: \<^verbatim>\<open>maxCount\<close> starts at 0 and \<^verbatim>\<open>relevantTopic\<close> is only
  replaced by a strictly greater count.
\<close>

theorem all_zero_counts_give_empty_topic:
  assumes "(docName, topics) \<in> set matches"
    and "\<forall>topics'. (docName, topics') \<in> set matches \<longrightarrow> (\<forall>r\<in>set topics'. count r = 0)"
  shows "determineRelevantTopics matches docName = Some ''''"
proof -
  from assms(1) have "docName \<in> fst ` set (rev matches)" by force
  then obtain ts where ts: "map_of (rev matches) docName = Some ts"
    by (metis domD dom_map_of_conv_image_fst)
  then have "(docName, ts) \<in> set matches" by (metis map_of_SomeD set_rev)
  with assms(2) have z: "\<forall>r\<in>set ts. count r = 0" by blast
  have "relevant_loop rs m0 t0 = (m0, t0)" if "\<forall>r\<in>set rs. count r = 0" "0 \<le> m0" for rs m0 t0
    using that by (induction rs) auto
  then have "relevant_loop ts 0 '''' = (0, '''')" using z by simp
  with determineRelevantTopics_last [OF ts] show ?thesis by simp
qed

theorem all_zero_counts_give_empty_topic_witness:
  "(''a.txt'', [\<lparr>topicName = ''Animals'', count = 0\<rparr>, \<lparr>topicName = ''Colors'', count = 0\<rparr>])
     \<in> set [(''a.txt'', [\<lparr>topicName = ''Animals'', count = 0\<rparr>, \<lparr>topicName = ''Colors'', count = 0\<rparr>]),
            (''b.txt'', [\<lparr>topicName = ''Animals'', count = 1\<rparr>, \<lparr>topicName = ''Colors'', count = 0\<rparr>])] \<and>
   determineRelevantTopics
     [(''a.txt'', [\<lparr>topicName = ''Animals'', count = 0\<rparr>, \<lparr>topicName = ''Colors'', count = 0\<rparr>]),
      (''b.txt'', [\<lparr>topicName = ''Animals'', count = 1\<rparr>, \<lparr>topicName = ''Colors'', count = 0\<rparr>])]
     ''a.txt'' = Some ''''"
proof -
  let ?za = "[\<lparr>topicName = ''Animals'', count = 0\<rparr>, \<lparr>topicName = ''Colors'', count = 0\<rparr>]"
  let ?zb = "[\<lparr>topicName = ''Animals'', count = 1\<rparr>, \<lparr>topicName = ''Colors'', count = 0\<rparr>]"
  let ?matches = "[(''a.txt'', ?za), (''b.txt'', ?zb)]"
  have h1: "(''a.txt'', ?za) \<in> set ?matches" by simp
  have h2: "\<forall>topics'. (''a.txt'', topics') \<in> set ?matches \<longrightarrow> (\<forall>r\<in>set topics'. count r = 0)"
    by simp
  from all_zero_counts_give_empty_topic [OF h1 h2] h1 show ?thesis by simp
qed

subsection \<open>Catalog loading\<close>

lemma tokenize_loop_None [simp]:
  "tokenize_loop s del start None tokens = Some (tokens @ [drop start s])"
  by (simp add: tokenize_loop.simps)

lemma tokenize_loop_Some:
  "tokenize_loop s del start (Some e) tokens
   = tokenize_loop s del (e + length del) (str_find s del (e + length del))
       (tokens @ [take (e - start) (drop start s)])"
  by (subst tokenize_loop.simps) simp

text \<open>
  Claim C4, at the input where the code departs from it. The catalog line
  \<open>Animals@%cat,\<close> gives the topic the keywords \<open>cat\<close> and the empty string; the
  replication hands the same catalog to the worker; and \<^verbatim>\<open>classifyDocument\<close> does not
  return on it, so the topic gets no entry at all. (For catalogs without an empty keyword
  and texts within the range of the 32-bit counter the result has the shape the claim
  states: lemma \<open>classify_topics_shape\<close>.)
\<close>

theorem empty_keyword_hangs_worker:
  "readCatalog (Some [''Animals@%cat,'']) [] = Some ([], Inr [(''Animals'', [''cat'', []])]) \<and>
   worker_catalog (serialized_catalog [(''Animals'', [''cat'', []])]) [CHR 0x00]
     = [(''Animals'', [''cat'', []])] \<and>
   classifyDocument [(''Animals'', [''cat'', []])] ''a.txt'' (Some [''the cat'']) = None"
proof (intro conjI)
  show "readCatalog (Some [''Animals@%cat,'']) [] = Some ([], Inr [(''Animals'', [''cat'', []])])"
    by (simp add: readCatalog_def tokenize_def tokenize_loop_Some str_find_def)
  show "worker_catalog (serialized_catalog [(''Animals'', [''cat'', []])]) [CHR 0x00]
     = [(''Animals'', [''cat'', []])]"
    by (simp add: worker_catalog_def serialized_catalog_def c_string_def
        read_items.simps decode_entries.simps)
  have a: "count_loop ''the cat'' ''cat'' (str_find ''the cat'' ''cat'' 0) 0 = Some 1"
    by (simp add: str_find_def count_loop_Some int32_def)
  have b: "str_find ''the cat'' [] 0 = Some 0"
    by (simp add: str_find_def)
  have c: "count_loop ''the cat'' [] (Some 0) 1 = None"
    by (rule count_loop_empty_diverges) simp
  show "classifyDocument [(''Animals'', [''cat'', []])] ''a.txt'' (Some [''the cat'']) = None"
    by (simp add: classifyDocument_def a b c)
qed

text \<open>
  A missing catalog file stops rank 0 with the diagnostic and the exception before its
  first MPI call: nothing is broadcast and nothing is dispatched.
\<close>

lemma missing_catalog_stops_manager:
  "2 \<le> world_size \<Longrightarrow>
   manager None documents world_size
     = Some \<lparr>cerr = [''Error opening the file!''],
             stopped = Some (Invalid_argument ''Catalog file does not exist''),
             events = []\<rparr>"
  by (simp add: manager_def readCatalog_def)

text \<open>
  Claim C6, at the input where the code departs from it. For a catalog line without
  \<open>@%\<close>, \<^verbatim>\<open>tokenize\<close> returns one token and \<^verbatim>\<open>readCatalog\<close> reads
  \<^verbatim>\<open>vector[1]\<close> past the end of the vector. Nothing checks the line, nothing is written
  to \<^verbatim>\<open>std::cerr\<close> and nothing is thrown: the behaviour is undefined, where the claim
  promises a fatal failure with a diagnostic.
\<close>

theorem malformed_catalog_line_undefined:
  "tokenize ''Animals'' ''@%'' = Some [''Animals''] \<and>
   readCatalog (Some [''Animals'']) [] = Some ([], Inl Undefined_read) \<and>
   manager (Some [''Animals'']) [''a.txt''] 2
     = Some \<lparr>cerr = [], stopped = Some Undefined_read, events = []\<rparr>"
  by (simp add: manager_def readCatalog_def tokenize_def str_find_def)

subsection \<open>The order of the MPI calls\<close>

text \<open>
  On rank 0 the two broadcasts and the barrier come before every send; on a worker the
  barrier comes first and the two broadcasts after it.
\<close>

lemma manager_call_order:
  assumes "manager catalogFile documents world_size = Some r"
  shows "events r = [] \<or>
     (\<exists>n cs sends. events r = Call (MPI_Bcast (Int_msg n)) # Call (MPI_Bcast (Chars_msg cs)) #
         Call MPI_Barrier # map (\<lambda>(i, m). Call (MPI_Send i m)) sends)"
  using assms
  by (auto simp: manager_def Let_def split: if_splits option.splits sum.splits prod.splits)

lemma worker_call_order:
  assumes "worker world_size received_catalog beyond inbox files = Some r"
    and "2 \<le> world_size"
  shows "\<exists>rest. events r = Call MPI_Barrier #
        Call (MPI_Bcast (Int_msg (int (length received_catalog)))) #
        Call (MPI_Bcast (Chars_msg received_catalog)) # rest"
  using assms
  by (auto simp: worker_def Let_def split: if_splits option.splits list.splits payload.splits)

text \<open>
  Claim C7, on a run with one worker, the catalog line \<open>Animals@%cat\<close> and the document
  \<open>a.txt\<close>. Rank 0 calls \<^verbatim>\<open>MPI_Bcast\<close> twice, then \<^verbatim>\<open>MPI_Barrier\<close>, then sends the
  assignment. The worker calls \<^verbatim>\<open>MPI_Barrier\<close> first and takes part in the two
  broadcasts only afterwards: the barrier is crossed while no worker has received the
  catalog, so it does not hold the dispatch back until the broadcast is complete. What the
  order of the worker's own calls still gives: it decodes the catalog before it receives
  its assignment and classifies.
\<close>

theorem workers_pass_barrier_before_broadcast:
  "manager (Some [''Animals@%cat'']) [''a.txt''] 2
     = Some \<lparr>cerr = [], stopped = None,
             events = [Call (MPI_Bcast (Int_msg 13)),
                       Call (MPI_Bcast (Chars_msg ''Animals:cat,;'')),
                       Call MPI_Barrier,
                       Call (MPI_Send 1 (Int_msg 1)),
                       Call (MPI_Send 1 (Int_msg 6)),
                       Call (MPI_Send 1 (Chars_msg
                         [CHR ''a'', CHR ''.'', CHR ''t'', CHR ''x'', CHR ''t'', CHR 0x00]))]\<rparr> \<and>
   worker 2 ''Animals:cat,;'' [CHR 0x00]
       [Int_msg 1, Int_msg 6,
        Chars_msg [CHR ''a'', CHR ''.'', CHR ''t'', CHR ''x'', CHR ''t'', CHR 0x00]]
       (\<lambda>path. Some [''the cat''])
     = Some \<lparr>cerr = [], stopped = None,
             events = [Call MPI_Barrier,
                       Call (MPI_Bcast (Int_msg 13)),
                       Call (MPI_Bcast (Chars_msg ''Animals:cat,;'')),
                       Call (MPI_Recv (Int_msg 1)),
                       Call (MPI_Recv (Int_msg 6)),
                       Call (MPI_Recv (Chars_msg
                         [CHR ''a'', CHR ''.'', CHR ''t'', CHR ''x'', CHR ''t'', CHR 0x00])),
                       Classified \<lparr>fileName = ''a.txt'', TopicsList = [(''Animals'', 1)]\<rparr>]\<rparr>"
proof (intro conjI)
  show "manager (Some [''Animals@%cat'']) [''a.txt''] 2
     = Some \<lparr>cerr = [], stopped = None,
             events = [Call (MPI_Bcast (Int_msg 13)),
                       Call (MPI_Bcast (Chars_msg ''Animals:cat,;'')),
                       Call MPI_Barrier,
                       Call (MPI_Send 1 (Int_msg 1)),
                       Call (MPI_Send 1 (Int_msg 6)),
                       Call (MPI_Send 1 (Chars_msg
                         [CHR ''a'', CHR ''.'', CHR ''t'', CHR ''x'', CHR ''t'', CHR 0x00]))]\<rparr>"
    by (simp add: manager_def readCatalog_def tokenize_def tokenize_loop_Some str_find_def
        serialized_catalog_def dispatch_def)
  show "worker 2 ''Animals:cat,;'' [CHR 0x00]
       [Int_msg 1, Int_msg 6,
        Chars_msg [CHR ''a'', CHR ''.'', CHR ''t'', CHR ''x'', CHR ''t'', CHR 0x00]]
       (\<lambda>path. Some [''the cat''])
     = Some \<lparr>cerr = [], stopped = None,
             events = [Call MPI_Barrier,
                       Call (MPI_Bcast (Int_msg 13)),
                       Call (MPI_Bcast (Chars_msg ''Animals:cat,;'')),
                       Call (MPI_Recv (Int_msg 1)),
                       Call (MPI_Recv (Int_msg 6)),
                       Call (MPI_Recv (Chars_msg
                         [CHR ''a'', CHR ''.'', CHR ''t'', CHR ''x'', CHR ''t'', CHR 0x00])),
                       Classified \<lparr>fileName = ''a.txt'', TopicsList = [(''Animals'', 1)]\<rparr>]\<rparr>"
    by (simp add: worker_def worker_catalog_def c_string_def read_items.simps
        decode_entries.simps classifyDocument_def getFileNameFromPath_def str_find_def
        count_loop_Some int32_def)
qed

end
